theory Spec2Isabelle
  imports Main
begin

section \<open>Shared data: completions, metrics, contexts\<close>

text \<open>
  Python's \<open>str\<close> is a sequence of Unicode code points, and \<open>str.rstrip()\<close> looks at
  code points beyond one byte, so a string whose characters matter is a list of code
  points.
\<close>

type_synonym pystr = "nat list"

text \<open>
  The declarations of \<open>ExternLSP\<close>, \<open>ExternPath\<close>, \<open>Completion\<close>, \<open>Metric\<close>, \<open>Context\<close>
  and \<open>State\<close> live in \<open>coq/shared/types.py\<close>, \<open>coq/shared/runtime.py\<close> and
  \<open>coq/server/state.py\<close>. The records below hold the fields that \<open>omnifunc.py\<close> reads;
  what an \<open>ExternLSP\<close> carries, the type of identifiers and every other field are type
  parameters.
\<close>

datatype 'l Extern = ExternLSP 'l | ExternPath (is_dir: bool) | ExternNone

record ('l, 'e, 'x) Completion =
  c_uid :: nat
  extern :: "'l Extern"
  secondary_edits :: 'e
  c_rest :: 'x

record ('l, 'e, 'x) Metric =
  comp :: "('l, 'e, 'x) Completion"
  m_rest :: 'x

record 'c Context =
  manual :: bool
  change_id :: 'c
  position :: "int \<times> int"
  syms_before :: pystr
  line_before :: pystr

record ('l, 'e, 'x, 'c) State =
  s_context :: "'c Context"
  inserted_pos :: "int \<times> int"
  last_edit :: "('l, 'e, 'x) Metric"

section \<open>The gating predicate (\<open>omnifunc.py\<close>, \<open>_should_cont\<close>)\<close>

text \<open>
  \<open>str.rstrip()\<close> without an argument removes the longest suffix of characters for which
  \<open>str.isspace\<close> holds: the code points CPython lists in \<open>_PyUnicode_IsWhitespace\<close>.
\<close>

definition isspace :: "nat \<Rightarrow> bool" where
  "isspace c =
     ((9 \<le> c \<and> c \<le> 13) \<or> (28 \<le> c \<and> c \<le> 32) \<or> c = 133 \<or> c = 160 \<or> c = 5760
      \<or> (8192 \<le> c \<and> c \<le> 8202) \<or> c = 8232 \<or> c = 8233 \<or> c = 8239 \<or> c = 8287
      \<or> c = 12288)"

definition rstrip :: "pystr \<Rightarrow> pystr" where
  "rstrip s = rev (dropWhile isspace (rev s))"

definition should_cont ::
  "('l, 'e, 'x, 'c) State \<Rightarrow> 'c Context \<Rightarrow> 'c Context \<Rightarrow> bool" where
  "should_cont state prev cur =
     (if manual cur then True
      else if change_id prev = change_id cur then False
      else if position cur = inserted_pos state then
        (case extern (comp (last_edit state)) of
           ExternPath d \<Rightarrow> d
         | _ \<Rightarrow> False)
      else if syms_before cur \<noteq> [] then True
      else
        (let stripped = rstrip (line_before cur)
         in stripped \<noteq> [] \<and> int (length (line_before cur)) - int (length stripped) \<le> 1))"

text \<open>
  The predicate as the specification words it. The last inserted edit continues a path-like
  fragment when its completion came from the path source and named a directory. The
  trailing whitespace of a line is counted from its end.
\<close>

definition continues_path :: "('l, 'e, 'x, 'c) State \<Rightarrow> bool" where
  "continues_path state =
     (extern (comp (last_edit state)) = ExternPath True)"

definition trailing_spaces :: "pystr \<Rightarrow> nat" where
  "trailing_spaces s = length (takeWhile isspace (rev s))"

definition should_cont_spec ::
  "('l, 'e, 'x, 'c) State \<Rightarrow> 'c Context \<Rightarrow> 'c Context \<Rightarrow> bool" where
  "should_cont_spec state prev cur =
     (if manual cur then True
      else if change_id prev = change_id cur then False
      else if position cur = inserted_pos state then continues_path state
      else (syms_before cur \<noteq> []
            \<or> (trailing_spaces (line_before cur) < length (line_before cur)
               \<and> trailing_spaces (line_before cur) \<le> 1)))"

text \<open>A context and a state to evaluate the predicate on.\<close>

definition context0 :: "nat Context" where
  "context0 = \<lparr>manual = False, change_id = 0, position = (0, 0), syms_before = [],
     line_before = []\<rparr>"

definition state0 :: "(unit, unit, unit, nat) State" where
  "state0 = \<lparr>s_context = context0, inserted_pos = (-1, -1),
     last_edit = \<lparr>comp = \<lparr>c_uid = 0, extern = ExternNone, secondary_edits = (),
       c_rest = ()\<rparr>, m_rest = ()\<rparr>\<rparr>"

lemma length_rstrip: "length (rstrip s) = length s - trailing_spaces s"
proof -
  have "length (takeWhile isspace (rev s)) + length (dropWhile isspace (rev s)) = length s"
    by (metis length_append length_rev takeWhile_dropWhile_id)
  then show ?thesis
    by (simp add: rstrip_def trailing_spaces_def)
qed

lemma trailing_spaces_le: "trailing_spaces s \<le> length s"
  by (metis length_rev length_takeWhile_le trailing_spaces_def)

lemma rstrip_append: "rstrip s @ rev (takeWhile isspace (rev s)) = s"
proof -
  have "rev (takeWhile isspace (rev s) @ dropWhile isspace (rev s)) = s"
    by simp
  then show ?thesis
    unfolding rstrip_def rev_append .
qed

lemma continues_path_case:
  "(case extern (comp (last_edit state)) of ExternPath d \<Rightarrow> d | _ \<Rightarrow> False)
     = continues_path state"
  by (cases "extern (comp (last_edit state))") (auto simp: continues_path_def)

lemma stripped_test:
  "(rstrip s \<noteq> [] \<and> int (length s) - int (length (rstrip s)) \<le> 1)
     = (trailing_spaces s < length s \<and> trailing_spaces s \<le> 1)"
proof -
  have a: "(rstrip s \<noteq> []) = (trailing_spaces s < length s)"
    using length_rstrip [of s] by (cases "rstrip s") auto
  have b: "int (length s) - int (length (rstrip s)) = int (trailing_spaces s)"
    using length_rstrip [of s] trailing_spaces_le [of s] by simp
  show ?thesis by (simp add: a b)
qed

text \<open>
  C6. The predicate returns true whenever the trigger is manual, whatever the other fields
  hold; false when it is not manual and the change identifier is the one of the previous
  context; with the caret where the last edit left it, true exactly when that edit
  continued a path-like fragment; otherwise true when a symbol fragment precedes the
  caret, or when the text before the caret is not all whitespace and ends in at most one
  whitespace character; and false in every remaining case.
\<close>

theorem should_cont_gate:
  "should_cont state prev (cur\<lparr>manual := True\<rparr>) = True
   \<and> should_cont state (prev\<lparr>change_id := c\<rparr>) (cur\<lparr>manual := False, change_id := c\<rparr>) = False
   \<and> should_cont state prev cur = should_cont_spec state prev cur"
proof -
  have 1: "should_cont state prev (cur\<lparr>manual := True\<rparr>) = True"
    by (simp add: should_cont_def)
  have 2: "should_cont state (prev\<lparr>change_id := c\<rparr>) (cur\<lparr>manual := False, change_id := c\<rparr>)
             = False"
    by (simp add: should_cont_def)
  have 3: "should_cont state prev cur = should_cont_spec state prev cur"
    unfolding should_cont_def should_cont_spec_def Let_def
    by (simp only: continues_path_case stripped_test) simp
  from 1 2 3 show ?thesis by blast
qed

text \<open>
  After one change, with \<open>"ab "\<close> before the caret and no symbol fragment, the predicate
  lets the cycle run; with two trailing spaces it does not.
\<close>

theorem should_cont_gate_witness:
  "should_cont state0 context0
     (context0\<lparr>change_id := 1, position := (0, 3), line_before := [97, 98, 32]\<rparr>) = True
   \<and> should_cont state0 context0
     (context0\<lparr>change_id := 1, position := (0, 4), line_before := [97, 98, 32, 32]\<rparr>) = False"
  using
    should_cont_gate [of state0 context0
      "context0\<lparr>change_id := 1, position := (0, 3), line_before := [97, 98, 32]\<rparr>"]
    should_cont_gate [of state0 context0
      "context0\<lparr>change_id := 1, position := (0, 4), line_before := [97, 98, 32, 32]\<rparr>"]
  by (simp add: should_cont_spec_def trailing_spaces_def isspace_def context0_def state0_def)

section \<open>The reply correlator (\<open>lsp/requests/request.py\<close>)\<close>

text \<open>
  A session and a payload, as the two frozen dataclasses declare them. A producer
  identifier is an optional string; what a reply holds is a type parameter.
\<close>

type_synonym 'a item = "string option \<times> 'a"

record 'a Session =
  uid :: int
  is_done :: bool
  acc :: "'a item list"

record 'a Payload =
  p_method :: string
  p_uid :: int
  client :: "string option"
  p_done :: bool
  reply :: 'a

text \<open>
  The module's globals. \<open>_UIDS = count()\<close> is a counter whose next value is \<open>UIDS\<close>.
  \<open>_STATE\<close> is a \<open>defaultdict\<close>: a read of a missing key gives (and stores) the default
  session, so it is a total function that starts as the default everywhere. \<open>_CONDS\<close>
  holds one condition variable per method name, made on first use; a condition is
  what its waiters are, and those are the requests below whose control is at \<open>Wait\<close>.
\<close>

record 'a Registry =
  UIDS :: int
  STATE :: "string \<Rightarrow> 'a Session"

definition default_session :: "'a Session" where
  "default_session = \<lparr>uid = - 1, is_done = True, acc = []\<rparr>"

definition registry0 :: "'a Registry" where
  "registry0 = \<lparr>UIDS = 0, STATE = (\<lambda>_. default_session)\<rparr>"

text \<open>
  \<open>_lsp_notify\<close>, the body of its \<open>cont\<close> up to the notification: no suspension point
  lies between the read of the session and the write.
\<close>

definition lsp_notify :: "'a Payload \<Rightarrow> 'a Registry \<Rightarrow> 'a Registry" where
  "lsp_notify payload r =
     (let acc0 = STATE r (p_method payload) in
      if p_uid payload = uid acc0 then
        r\<lparr>STATE := (STATE r)(p_method payload :=
            \<lparr>uid = p_uid payload, is_done = p_done payload,
             acc = acc acc0 @ [(client payload, reply payload)]\<rparr>)\<rparr>
      else r)"

text \<open>
  \<open>async_request\<close> is an asynchronous generator. Its state between two resumptions is
  its local variables (\<open>method\<close>, \<open>uid\<close>, \<open>done\<close>) and the place it is suspended at:
  before the read of the session that opens an iteration of the \<open>while\<close> loop
  (\<open>Check\<close>), at a \<open>yield\<close> with the rest of the snapshot it iterates over still to come
  (\<open>Yield\<close>), in \<open>cond.wait()\<close> (\<open>Wait\<close>), or finished (\<open>Stop\<close>).
\<close>

datatype 'a pc = Check | Yield "'a item list" | Wait | Stop

record 'a Request =
  r_method :: string
  r_uid :: int
  r_done :: bool
  r_pc :: "'a pc"

text \<open>
  Lines 64 to 74: the epoch is drawn, the session of the method is replaced, the
  waiters are notified (by \<open>step\<close> below) and the request is sent to the editor.
\<close>

definition async_request :: "string \<Rightarrow> 'a Registry \<Rightarrow> 'a Request \<times> 'a Registry" where
  "async_request m r =
     (let u = UIDS r; d = False in
      (\<lparr>r_method = m, r_uid = u, r_done = d, r_pc = Check\<rparr>,
       r\<lparr>UIDS := UIDS r + 1,
         STATE := (STATE r)(m := \<lparr>uid = u, is_done = d, acc = []\<rparr>)\<rparr>))"

text \<open>
  Lines 79 to 82 and 86 to 87: the \<open>for\<close> loop runs to its next \<open>yield\<close>; at its end the
  local \<open>done\<close> decides between leaving the loop and waiting on the condition.
\<close>

definition for_loop :: "'a item list \<Rightarrow> 'a Request \<Rightarrow> 'a item option \<times> 'a Request" where
  "for_loop rest c =
     (case rest of
        x # xs \<Rightarrow> (Some x, c\<lparr>r_pc := Yield xs\<rparr>)
      | [] \<Rightarrow> (None, c\<lparr>r_pc := (if r_done c then Stop else Wait)\<rparr>))"

text \<open>
  One resumption of the generator, up to its next suspension: the item it yields, if
  any, and where it stops. A request that waits is not resumed before a notification.
\<close>

definition resume :: "'a Registry \<Rightarrow> 'a Request \<Rightarrow> 'a item option \<times> 'a Request" where
  "resume r c =
     (case r_pc c of
        Check \<Rightarrow>
          (let acc0 = STATE r (r_method c) in
           if uid acc0 = r_uid c then for_loop (acc acc0) c
           else if uid acc0 > r_uid c then (None, c\<lparr>r_pc := Stop\<rparr>)
           else (None, c\<lparr>r_pc := Wait\<rparr>))
      | Yield rest \<Rightarrow> for_loop rest c
      | Wait \<Rightarrow> (None, c)
      | Stop \<Rightarrow> (None, c))"

definition notify_all :: "string \<Rightarrow> 'a Request \<Rightarrow> 'a Request" where
  "notify_all m c = (if r_method c = m \<and> r_pc c = Wait then c\<lparr>r_pc := Check\<rparr> else c)"

text \<open>
  One request under observation, and everything else that touches the registry: other
  calls of \<open>async_request\<close> (\<open>Open\<close>), replies pushed by the editor (\<open>Notify\<close>), and the
  resumptions of the observed request (\<open>Resume\<close>). The scheduler is cooperative, so
  these happen one at a time, in any order. The system keeps what the request has
  yielded and the epochs handed out, with their methods, in call order.
\<close>

datatype 'a event = Open string | Notify "'a Payload" | Resume

record 'a System =
  registry :: "'a Registry"
  request :: "'a Request"
  yielded :: "'a item list"
  opened :: "(string \<times> int) list"

fun step :: "'a event \<Rightarrow> 'a System \<Rightarrow> 'a System" where
  "step (Open m) s =
     (let (c, r) = async_request m (registry s) in
      s\<lparr>registry := r, request := notify_all m (request s),
        opened := opened s @ [(m, r_uid c)]\<rparr>)"
| "step (Notify p) s =
     s\<lparr>registry := lsp_notify p (registry s),
       request := notify_all (p_method p) (request s)\<rparr>"
| "step Resume s =
     (let (out, c) = resume (registry s) (request s) in
      s\<lparr>request := c,
        yielded := yielded s @ (case out of None \<Rightarrow> [] | Some x \<Rightarrow> [x])\<rparr>)"

fun run :: "'a event list \<Rightarrow> 'a System \<Rightarrow> 'a System" where
  "run [] s = s"
| "run (e # es) s = run es (step e s)"

text \<open>
  The process starts with a fresh registry and no request under observation;
  \<open>begin_request\<close> is the first resumption of the observed call of \<open>async_request\<close>, up
  to line 74.
\<close>

definition boot :: "'a System" where
  "boot = \<lparr>registry = registry0,
     request = \<lparr>r_method = [], r_uid = - 1, r_done = False, r_pc = Stop\<rparr>,
     yielded = [], opened = []\<rparr>"

definition begin_request :: "string \<Rightarrow> 'a System \<Rightarrow> 'a System" where
  "begin_request m s =
     (let (c, r) = async_request m (registry s) in
      s\<lparr>registry := r, request := c, yielded := [], opened := opened s @ [(m, r_uid c)]\<rparr>)"

text \<open>
  The payloads of a trace that \<open>_lsp_notify\<close> accepts for the observed request: those of
  its method whose epoch is its own and is the current one when they arrive.
\<close>

fun accepted :: "'a event list \<Rightarrow> 'a System \<Rightarrow> 'a item list" where
  "accepted [] s = []"
| "accepted (Notify p # es) s =
     (if p_method p = r_method (request s) \<and> p_uid p = r_uid (request s)
         \<and> p_uid p = uid (STATE (registry s) (p_method p))
      then [(client p, reply p)] else []) @ accepted es (step (Notify p) s)"
| "accepted (e # es) s = accepted es (step e s)"

text \<open>
  What is left of the snapshot a request iterates over, the number of resumptions in a
  trace, and a request whose epoch the session of its method has passed.
\<close>

definition pending :: "'a System \<Rightarrow> 'a item list" where
  "pending s = (case r_pc (request s) of Yield rest \<Rightarrow> rest | _ \<Rightarrow> [])"

fun resumes :: "'a event list \<Rightarrow> nat" where
  "resumes [] = 0"
| "resumes (Resume # es) = Suc (resumes es)"
| "resumes (e # es) = resumes es"

definition superseded :: "'a System \<Rightarrow> bool" where
  "superseded s = (r_uid (request s) < uid (STATE (registry s) (r_method (request s))))"

text \<open>Every epoch in the registry, and the one of the request, was drawn from the counter.\<close>

definition drawn :: "'a System \<Rightarrow> bool" where
  "drawn s =
     ((\<forall>m. uid (STATE (registry s) m) < UIDS (registry s))
      \<and> r_uid (request s) < UIDS (registry s))"

text \<open>The epochs handed out so far increase and lie below the counter.\<close>

definition opened_inv :: "'a System \<Rightarrow> bool" where
  "opened_inv s =
     (sorted_wrt (<) (map snd (opened s))
      \<and> (\<forall>x \<in> set (opened s). snd x < UIDS (registry s)))"

text \<open>Everything yielded, about to be yielded or accumulated for the request lies in \<open>A\<close>.\<close>

definition within :: "'a item set \<Rightarrow> 'a System \<Rightarrow> bool" where
  "within A s =
     (set (yielded s) \<subseteq> A
      \<and> (case r_pc (request s) of Yield rest \<Rightarrow> set rest \<subseteq> A | _ \<Rightarrow> True)
      \<and> (uid (STATE (registry s) (r_method (request s))) = r_uid (request s)
           \<longrightarrow> set (acc (STATE (registry s) (r_method (request s)))) \<subseteq> A))"

text \<open>Payloads and a trace to evaluate the correlator on.\<close>

definition pay :: "int \<Rightarrow> bool \<Rightarrow> nat \<Rightarrow> nat Payload" where
  "pay u d v = \<lparr>p_method = ''m'', p_uid = u, client = None, p_done = d, reply = v\<rparr>"

definition mid_pass :: "nat System" where
  "mid_pass = run [Notify (pay 0 False 7), Notify (pay 0 False 8), Resume, Open ''m'']
     (begin_request ''m'' boot)"

subsection \<open>What the steps keep\<close>

lemma UIDS_lsp_notify [simp]: "UIDS (lsp_notify p r) = UIDS r"
  by (simp add: lsp_notify_def Let_def)

lemma uid_lsp_notify [simp]: "uid (STATE (lsp_notify p r) m) = uid (STATE r m)"
  by (simp add: lsp_notify_def Let_def)

lemma notify_all_fields [simp]:
  "r_method (notify_all m c) = r_method c"
  "r_uid (notify_all m c) = r_uid c"
  "r_done (notify_all m c) = r_done c"
  by (simp_all add: notify_all_def)

lemma for_loop_fields [simp]:
  "r_method (snd (for_loop xs c)) = r_method c"
  "r_uid (snd (for_loop xs c)) = r_uid c"
  "r_done (snd (for_loop xs c)) = r_done c"
  by (simp_all add: for_loop_def split: list.splits)

lemma resume_fields [simp]:
  "r_method (snd (resume r c)) = r_method c"
  "r_uid (snd (resume r c)) = r_uid c"
  "r_done (snd (resume r c)) = r_done c"
  by (simp_all add: resume_def Let_def split: pc.splits)

lemma step_fields [simp]:
  "r_method (request (step e s)) = r_method (request s)"
  "r_uid (request (step e s)) = r_uid (request s)"
  "r_done (request (step e s)) = r_done (request s)"
  by (cases e; simp add: split_beta Let_def)+

lemma run_fields [simp]:
  "r_method (request (run evs s)) = r_method (request s)"
  "r_uid (request (run evs s)) = r_uid (request s)"
  "r_done (request (run evs s)) = r_done (request s)"
  by (induction evs arbitrary: s; simp)+

lemma begin_fields [simp]:
  "r_method (request (begin_request m s)) = m"
  "r_uid (request (begin_request m s)) = UIDS (registry s)"
  "r_done (request (begin_request m s)) = False"
  "r_pc (request (begin_request m s)) = Check"
  "yielded (begin_request m s) = []"
  by (simp_all add: begin_request_def async_request_def Let_def)

lemma run_append: "run (xs @ ys) s = run ys (run xs s)"
  by (induction xs arbitrary: s) simp_all

lemmas eval_defs = begin_request_def async_request_def boot_def registry0_def default_session_def
  lsp_notify_def notify_all_def resume_def for_loop_def pay_def pending_def Let_def

lemma drawn_step: "drawn s \<Longrightarrow> drawn (step e s)"
  by (cases e) (auto simp: drawn_def async_request_def Let_def split_beta order_less_imp_le)

lemma drawn_run: "drawn s \<Longrightarrow> drawn (run evs s)"
  by (induction evs arbitrary: s) (simp_all add: drawn_step)

lemma drawn_boot: "drawn boot"
  by (simp add: drawn_def boot_def registry0_def default_session_def)

lemma drawn_begin: "drawn s \<Longrightarrow> drawn (begin_request m s)"
  by (auto simp: drawn_def begin_request_def async_request_def Let_def order_less_imp_le)

lemma drawn_reach: "drawn (run evs1 (begin_request m (run pre boot)))"
  by (intro drawn_run drawn_begin drawn_boot)

subsection \<open>Epochs\<close>

lemma opened_inv_step: "opened_inv s \<Longrightarrow> opened_inv (step e s)"
proof (cases e)
  case (Open m)
  assume "opened_inv s"
  then show ?thesis
    unfolding opened_inv_def Open
    by (auto simp: async_request_def Let_def sorted_wrt_append)
next
  case (Notify p)
  assume "opened_inv s"
  then show ?thesis
    unfolding opened_inv_def Notify by simp
next
  case Resume
  assume "opened_inv s"
  then show ?thesis
    unfolding opened_inv_def Resume by (simp add: split_beta Let_def)
qed

lemma opened_inv_run: "opened_inv s \<Longrightarrow> opened_inv (run evs s)"
  by (induction evs arbitrary: s) (simp_all add: opened_inv_step)

lemma opened_inv_boot: "opened_inv boot"
  by (simp add: opened_inv_def boot_def)

lemma opened_inv_begin: "opened_inv s \<Longrightarrow> opened_inv (begin_request m s)"
  unfolding opened_inv_def begin_request_def
  by (auto simp: async_request_def Let_def sorted_wrt_append)

lemma sorted_wrt_filter_less:
  "sorted_wrt (<) (map snd xs) \<Longrightarrow> sorted_wrt (<) (map snd (filter P xs))"
  by (induction xs) auto

text \<open>
  C9. Whatever happens in between, the epochs that the calls of \<open>async_request\<close> return
  are strictly increasing in call order, over all methods together; so they are never
  reused, and those of one method are strictly increasing as well.
\<close>

theorem epochs_increase:
  "sorted_wrt (<) (map snd (opened (run evs (begin_request m (run pre boot)))))
   \<and> distinct (map snd (opened (run evs (begin_request m (run pre boot)))))
   \<and> sorted_wrt (<) (map snd (filter (\<lambda>x. fst x = k) (opened (run evs (begin_request m (run pre boot))))))"
proof -
  let ?s = "run evs (begin_request m (run pre boot))"
  have "opened_inv ?s"
    by (intro opened_inv_run opened_inv_begin opened_inv_boot)
  then have a: "sorted_wrt (<) (map snd (opened ?s))"
    by (simp add: opened_inv_def)
  then have b: "distinct (map snd (opened ?s))"
    using strict_sorted_iff by (metis sorted_wrt_map distinct_map sorted_wrt.simps strict_sorted_iff)
  from a have c: "sorted_wrt (<) (map snd (filter (\<lambda>x. fst x = k) (opened ?s)))"
    by (rule sorted_wrt_filter_less)
  from a b c show ?thesis by blast
qed

subsection \<open>Ingestion\<close>

lemma within_mono: "within A s \<Longrightarrow> A \<subseteq> B \<Longrightarrow> within B s"
  by (auto simp: within_def split: pc.splits)

lemma within_Open: "within A s \<Longrightarrow> within A (step (Open m) s)"
  by (auto simp: within_def async_request_def notify_all_def Let_def split: pc.splits)

lemma within_Notify:
  "within A s \<Longrightarrow> within (A \<union> set (accepted [Notify p] s)) (step (Notify p) s)"
  by (auto simp: within_def lsp_notify_def notify_all_def Let_def split: pc.splits)

lemma within_Resume: "within A s \<Longrightarrow> within A (step Resume s)"
  by (auto simp: within_def resume_def for_loop_def Let_def split: pc.splits list.splits)

lemma accepted_Cons: "set (accepted (e # es) s) = set (accepted [e] s) \<union> set (accepted es (step e s))"
  by (cases e) auto

lemma within_run: "within A s \<Longrightarrow> within (A \<union> set (accepted evs s)) (run evs s)"
proof (induction evs arbitrary: A s)
  case Nil
  then show ?case by simp
next
  case (Cons e es)
  have "within (A \<union> set (accepted [e] s)) (step e s)"
  proof (cases e)
    case (Open m)
    with Cons.prems show ?thesis using within_Open [of A s m] by simp
  next
    case (Notify p)
    with Cons.prems show ?thesis using within_Notify [of A s p] by simp
  next
    case Resume
    with Cons.prems show ?thesis using within_Resume [of A s] by simp
  qed
  from Cons.IH [OF this] show ?case
    by (simp add: accepted_Cons [of e es s] Un_assoc)
qed

lemma within_begin: "within {} (begin_request m s)"
  by (simp add: within_def begin_request_def async_request_def Let_def)

lemma yielded_accepted:
  "set (yielded (run evs (begin_request m s))) \<subseteq> set (accepted evs (begin_request m s))"
  using within_run [OF within_begin, of evs m s] by (simp add: within_def)

text \<open>
  C3. A payload whose epoch is not the current one of its method leaves the registry as
  it was: the accumulated sequence and the done flag of the session are unchanged. A
  payload whose epoch is the current one appends its pair of client and reply and
  records its done flag. The waiters of the method are notified either way. So what a
  request yields comes only from payloads that carried the current epoch when they
  arrived: a reply with a lower epoch is never yielded.
\<close>

theorem lsp_notify_current_only:
  "registry (step (Notify p) s) =
     (if p_uid p = uid (STATE (registry s) (p_method p))
      then (registry s)\<lparr>STATE := (STATE (registry s))(p_method p :=
             \<lparr>uid = p_uid p, is_done = p_done p,
              acc = acc (STATE (registry s) (p_method p)) @ [(client p, reply p)]\<rparr>)\<rparr>
      else registry s)
   \<and> request (step (Notify p) s) = notify_all (p_method p) (request s)
   \<and> set (yielded (run evs (begin_request m t))) \<subseteq> set (accepted evs (begin_request m t))"
  using yielded_accepted [of evs m t] by (simp add: lsp_notify_def Let_def)

text \<open>
  With epoch 1 current, a payload of epoch 0 changes nothing, one of epoch 1 is
  accumulated, and only the reply of the latter can be yielded.
\<close>

theorem lsp_notify_current_only_witness:
  "registry (step (Notify (pay 0 True 7)) (begin_request ''m'' (step (Open ''m'') boot)))
     = registry (begin_request ''m'' (step (Open ''m'') boot))
   \<and> STATE (registry (step (Notify (pay 1 True 7)) (begin_request ''m'' (step (Open ''m'') boot)))) ''m''
     = \<lparr>uid = 1, is_done = True, acc = [(None, 7)]\<rparr>
   \<and> set (yielded (run [Notify (pay 0 False 5), Notify (pay 1 False 7), Resume, Resume]
        (begin_request ''m'' (step (Open ''m'') boot))))
      \<subseteq> {(None, 7)}"
  using
    lsp_notify_current_only [where p = "pay 0 True 7"
      and s = "begin_request ''m'' (step (Open ''m'') boot)"
      and evs = "[]" and m = "''m''" and t = boot]
    lsp_notify_current_only [where p = "pay 1 True 7"
      and s = "begin_request ''m'' (step (Open ''m'') boot)"
      and evs = "[Notify (pay 0 False 5), Notify (pay 1 False 7), Resume, Resume]"
      and m = "''m''" and t = "step (Open ''m'') boot"]
  by (simp add: eval_defs)

subsection \<open>Supersession\<close>

lemma superseded_step: "drawn s \<Longrightarrow> superseded s \<Longrightarrow> superseded (step e s)"
  by (cases e) (auto simp: superseded_def drawn_def async_request_def Let_def split_beta)

lemma superseded_run: "drawn s \<Longrightarrow> superseded s \<Longrightarrow> superseded (run evs s)"
  by (induction evs arbitrary: s) (simp_all add: superseded_step drawn_step)

lemma superseded_one:
  assumes "superseded s"
  shows "yielded (step e s) = yielded s @ take (resumes [e]) (pending s)
         \<and> pending (step e s) = drop (resumes [e]) (pending s)"
proof (cases e)
  case (Open m)
  then show ?thesis
    by (simp add: pending_def notify_all_def split_beta Let_def split: pc.splits)
next
  case (Notify p)
  then show ?thesis
    by (simp add: pending_def notify_all_def split: pc.splits)
next
  case Resume
  with assms show ?thesis
    by (cases "r_pc (request s)")
       (auto simp: pending_def superseded_def resume_def for_loop_def Let_def split: list.splits)
qed

lemma resumes_Cons: "resumes (e # es) = resumes [e] + resumes es"
  by (cases e) simp_all

lemma superseded_yield:
  "drawn s \<Longrightarrow> superseded s \<Longrightarrow>
     yielded (run evs s) = yielded s @ take (resumes evs) (pending s)"
proof (induction evs arbitrary: s)
  case Nil
  then show ?case by simp
next
  case (Cons e es)
  have one: "yielded (step e s) = yielded s @ take (resumes [e]) (pending s)"
    and rest: "pending (step e s) = drop (resumes [e]) (pending s)"
    using superseded_one [OF Cons.prems(2), of e] by simp_all
  have "yielded (run es (step e s))
          = yielded (step e s) @ take (resumes es) (pending (step e s))"
    using Cons.IH [of "step e s"] Cons.prems by (simp add: drawn_step superseded_step)
  then show ?case
    by (simp add: one rest resumes_Cons [of e es] take_add)
qed

lemma superseded_stop:
  "superseded s \<Longrightarrow> r_pc (request s) = Check \<Longrightarrow> r_pc (request (step Resume s)) = Stop"
  by (simp add: superseded_def resume_def Let_def)

lemma stop_step: "r_pc (request s) = Stop \<Longrightarrow> r_pc (request (step e s)) = Stop"
  by (cases e) (simp_all add: notify_all_def resume_def split_beta Let_def)

lemma stop_run: "r_pc (request s) = Stop \<Longrightarrow> r_pc (request (run evs s)) = Stop"
  by (induction evs arbitrary: s) (simp_all add: stop_step)

text \<open>
  C2, as the claim states it, fails: a request suspended at a \<open>yield\<close> iterates over the
  snapshot it took at its last inspection. After a newer call has replaced the session
  (the epoch of the method is 1, the request has 0) it still yields the second item of
  that snapshot; it then waits on the condition, having missed the notification of the
  call that superseded it.
\<close>

theorem supersession_counterexample:
  "r_uid (request mid_pass) < uid (STATE (registry mid_pass) ''m'')
   \<and> yielded mid_pass = [(None, 7)]
   \<and> yielded (run [Resume] mid_pass) = [(None, 7), (None, 8)]
   \<and> r_pc (request (run [Resume, Resume] mid_pass)) = Wait"
  by (simp add: mid_pass_def eval_defs)

text \<open>
  C2, amended. Once the epoch of the session exceeds the one of the request, it stays
  so; the request yields nothing but the rest of the snapshot it was iterating over
  when it was superseded (nothing when it was waiting or about to inspect the
  session), whatever is ingested afterwards, also payloads with its own epoch; and the
  next time it inspects the session it stops.
\<close>

theorem superseded_request:
  assumes "s = run evs1 (begin_request m (run pre boot))"
    and "r_uid (request s) < uid (STATE (registry s) m)"
  shows "r_uid (request (run evs2 s)) < uid (STATE (registry (run evs2 s)) m)
     \<and> yielded (run evs2 s) = yielded s @ take (resumes evs2) (pending s)
     \<and> (r_pc (request s) = Check \<longrightarrow> r_pc (request (run (Resume # evs2) s)) = Stop)"
proof -
  have m: "r_method (request s) = m"
    by (simp add: assms(1))
  have d: "drawn s"
    unfolding assms(1) by (rule drawn_reach)
  have sup: "superseded s"
    using assms(2) by (simp add: superseded_def m)
  have 1: "r_uid (request (run evs2 s)) < uid (STATE (registry (run evs2 s)) m)"
    using superseded_run [OF d sup, of evs2] by (simp add: superseded_def m)
  have 2: "yielded (run evs2 s) = yielded s @ take (resumes evs2) (pending s)"
    by (rule superseded_yield [OF d sup])
  have 3: "r_pc (request s) = Check \<longrightarrow> r_pc (request (run (Resume # evs2) s)) = Stop"
    using superseded_stop [OF sup] stop_run [of "step Resume s" evs2] by simp
  from 1 2 3 show ?thesis by blast
qed

text \<open>
  A request superseded before its first inspection yields nothing and stops, also when
  a payload with its epoch arrives afterwards; one superseded after the first of two
  items yields the second and never the reply that arrived later.
\<close>

theorem superseded_request_witness:
  "yielded (run [Notify (pay 0 False 9), Resume, Resume, Resume]
      (run [Open ''m''] (begin_request ''m'' (run [] boot)))) = []
   \<and> r_pc (request (run [Resume, Notify (pay 0 False 9), Resume]
      (run [Open ''m''] (begin_request ''m'' (run [] boot))))) = Stop
   \<and> yielded (run [Notify (pay 0 False 9), Resume, Resume, Resume]
      (run [Notify (pay 0 False 7), Notify (pay 0 False 8), Resume, Open ''m'']
        (begin_request ''m'' (run [] boot)))) = [(None, 7), (None, 8)]"
  using
    superseded_request [OF refl, of "[Open ''m'']" "''m''" "[]"
      "[Notify (pay 0 False 9), Resume, Resume, Resume]"]
    superseded_request [OF refl, of "[Open ''m'']" "''m''" "[]"
      "[Notify (pay 0 False 9), Resume]"]
    superseded_request [OF refl,
      of "[Notify (pay 0 False 7), Notify (pay 0 False 8), Resume, Open ''m'']" "''m''" "[]"
      "[Notify (pay 0 False 9), Resume, Resume, Resume]"]
  by (simp add: eval_defs)

subsection \<open>The end of a request\<close>

text \<open>
  A request leaves its loop in one way only: by finding the epoch of the session above
  its own.
\<close>

lemma stop_step_superseded:
  assumes "drawn s" and "\<not> r_done (request s)"
    and "r_pc (request s) = Stop \<longrightarrow> superseded s"
  shows "r_pc (request (step e s)) = Stop \<longrightarrow> superseded (step e s)"
proof (cases "r_pc (request s) = Stop")
  case True
  with assms show ?thesis by (simp add: superseded_step)
next
  case False
  show ?thesis
  proof (cases e)
    case (Open m)
    with False show ?thesis
      by (simp add: notify_all_def split_beta Let_def)
  next
    case (Notify p)
    with False show ?thesis
      by (simp add: notify_all_def)
  next
    case Resume
    with False assms(2) show ?thesis
      by (cases "r_pc (request s)")
         (auto simp: resume_def for_loop_def superseded_def Let_def split: list.splits)
  qed
qed

lemma stop_only_superseded:
  "drawn s \<Longrightarrow> \<not> r_done (request s) \<Longrightarrow> (r_pc (request s) = Stop \<longrightarrow> superseded s) \<Longrightarrow>
     r_pc (request (run evs s)) = Stop \<longrightarrow> superseded (run evs s)"
proof (induction evs arbitrary: s)
  case Nil
  then show ?case by simp
next
  case (Cons e es)
  have "r_pc (request (step e s)) = Stop \<longrightarrow> superseded (step e s)"
    using Cons.prems by (rule stop_step_superseded)
  with Cons.IH [of "step e s"] Cons.prems show ?case
    by (simp add: drawn_step)
qed

lemma request_ends_only_superseded:
  "r_pc (request (run evs (begin_request m (run pre boot)))) = Stop \<longrightarrow>
     superseded (run evs (begin_request m (run pre boot)))"
  by (rule stop_only_superseded) (simp_all add: drawn_begin drawn_run drawn_boot)

text \<open>
  C4. The local \<open>done\<close> is set to \<open>False\<close> on line 64 and never assigned again, so the
  test on line 81 never holds: after a payload with \<open>done = True\<close> is accepted, the
  request yields the item and then waits on the condition again. (By
  \<open>request_ends_only_superseded\<close> nothing but a newer call ever ends it.)
\<close>

theorem done_does_not_end_request:
  "is_done (STATE (registry (run [Notify (pay 0 True 7), Resume, Resume]
      (begin_request ''m'' boot))) ''m'') = True
   \<and> yielded (run [Notify (pay 0 True 7), Resume, Resume] (begin_request ''m'' boot))
      = [(None, 7)]
   \<and> r_pc (request (run [Notify (pay 0 True 7), Resume, Resume] (begin_request ''m'' boot)))
      = Wait"
  by (simp add: eval_defs)

subsection \<open>One pass per inspection\<close>

lemma quiet_run: "resumes evs = 0 \<Longrightarrow> yielded (run evs s) = yielded s"
proof (induction evs arbitrary: s)
  case Nil
  then show ?case by simp
next
  case (Cons e es)
  then show ?case by (cases e) (simp_all add: split_beta Let_def)
qed

lemma pass_rest:
  "r_pc (request s) = Yield rest \<Longrightarrow> resumes evs \<le> Suc (length rest) \<Longrightarrow>
     yielded (run evs s) = yielded s @ take (resumes evs) rest"
proof (induction evs arbitrary: s rest)
  case Nil
  then show ?case by simp
next
  case (Cons e es)
  show ?case
  proof (cases e)
    case (Open m)
    have "r_pc (request (step e s)) = Yield rest" "yielded (step e s) = yielded s"
      using Cons.prems(1) Open by (simp_all add: notify_all_def split_beta Let_def)
    with Cons.IH [of "step e s" rest] Cons.prems(2) Open show ?thesis by simp
  next
    case (Notify p)
    have "r_pc (request (step e s)) = Yield rest" "yielded (step e s) = yielded s"
      using Cons.prems(1) Notify by (simp_all add: notify_all_def)
    with Cons.IH [of "step e s" rest] Cons.prems(2) Notify show ?thesis by simp
  next
    case Resume
    show ?thesis
    proof (cases rest)
      case Nil
      have "resumes es = 0"
        using Cons.prems(2) Resume Nil by simp
      then have "yielded (run es (step e s)) = yielded (step e s)"
        by (rule quiet_run)
      moreover have "yielded (step e s) = yielded s"
        using Cons.prems(1) Resume Nil by (simp add: resume_def for_loop_def)
      ultimately show ?thesis
        using Nil by simp
    next
      case (Cons x xs)
      have a: "r_pc (request (step e s)) = Yield xs"
        and b: "yielded (step e s) = yielded s @ [x]"
        using Cons.prems(1) Resume Cons by (simp_all add: resume_def for_loop_def)
      have "resumes es \<le> Suc (length xs)"
        using Cons.prems(2) Resume Cons by simp
      from Cons.IH [OF a this] show ?thesis
        using Resume Cons b by simp
    qed
  qed
qed

lemma pass_end:
  "r_pc (request s) = Yield rest \<Longrightarrow> \<not> r_done (request s) \<Longrightarrow>
     r_pc (request (run (replicate (Suc (length rest)) Resume) s)) = Wait"
proof (induction rest arbitrary: s)
  case Nil
  then show ?case by (simp add: resume_def for_loop_def)
next
  case (Cons x xs)
  have "r_pc (request (step Resume s)) = Yield xs" "\<not> r_done (request (step Resume s))"
    using Cons.prems by (simp_all add: resume_def for_loop_def)
  from Cons.IH [OF this] show ?case by simp
qed

text \<open>
  C5, as the claim states it, fails: two payloads are accepted, and the reply of the
  first is yielded twice, once at each inspection of the session.
\<close>

theorem yield_once_counterexample:
  "accepted [Notify (pay 0 False 7), Resume, Resume, Notify (pay 0 False 8), Resume, Resume, Resume]
      (begin_request ''m'' boot) = [(None, 7), (None, 8)]
   \<and> yielded (run
        [Notify (pay 0 False 7), Resume, Resume, Notify (pay 0 False 8), Resume, Resume, Resume]
        (begin_request ''m'' boot)) = [(None, 7), (None, 7), (None, 8)]"
  by (simp add: eval_defs)

text \<open>
  C5, amended. An inspection that finds the epoch of the request yields every item
  accumulated at that moment, once each and in the order of ingestion, one per
  resumption and whatever happens in between; then the request waits. (A later
  inspection starts again at the first item.)
\<close>

theorem inspection_yields_snapshot_once:
  assumes "s = run evs1 (begin_request m (run pre boot))"
    and "r_pc (request s) = Check"
    and "uid (STATE (registry s) m) = r_uid (request s)"
    and "resumes evs \<le> length (acc (STATE (registry s) m))"
  shows "yielded (run (Resume # evs) s)
           = yielded s @ take (Suc (resumes evs)) (acc (STATE (registry s) m))
     \<and> r_pc (request (run (replicate (Suc (length (acc (STATE (registry s) m)))) Resume) s))
           = Wait"
proof -
  have m: "r_method (request s) = m" and nd: "\<not> r_done (request s)"
    by (simp_all add: assms(1))
  show ?thesis
  proof (cases "acc (STATE (registry s) m)")
    case Nil
    have "resumes evs = 0"
      using assms(4) Nil by simp
    then have "yielded (run evs (step Resume s)) = yielded (step Resume s)"
      by (rule quiet_run)
    moreover have "yielded (step Resume s) = yielded s" "r_pc (request (step Resume s)) = Wait"
      using assms(2,3) m nd Nil by (simp_all add: resume_def for_loop_def)
    ultimately show ?thesis
      using Nil by simp
  next
    case (Cons x xs)
    have a: "r_pc (request (step Resume s)) = Yield xs"
      and b: "yielded (step Resume s) = yielded s @ [x]"
      and c: "\<not> r_done (request (step Resume s))"
      using assms(2,3) m nd Cons by (simp_all add: resume_def for_loop_def)
    have "resumes evs \<le> Suc (length xs)"
      using assms(4) Cons by simp
    from pass_rest [OF a this] pass_end [OF a c] show ?thesis
      using Cons b by simp
  qed
qed

text \<open>
  With two items accumulated, the inspection and two more resumptions yield the two
  items, even though the session is replaced in between.
\<close>

theorem inspection_yields_snapshot_once_witness:
  "yielded (run (Resume # [Resume, Open ''m'', Resume])
      (run [Notify (pay 0 False 7), Notify (pay 0 False 8)] (begin_request ''m'' (run [] boot))))
     = [(None, 7), (None, 8)]
   \<and> r_pc (request (run [Resume, Resume, Resume]
      (run [Notify (pay 0 False 7), Notify (pay 0 False 8)] (begin_request ''m'' (run [] boot)))))
     = Wait"
  using inspection_yields_snapshot_once [OF refl,
      of "[Notify (pay 0 False 7), Notify (pay 0 False 8)]" "''m''" "[]"
         "[Resume, Open ''m'', Resume]"]
  by (simp add: eval_defs)

section \<open>The resolve flow (\<open>omnifunc.py\<close>, \<open>_resolve\<close>)\<close>

text \<open>
  \<open>_resolve\<close> reads the cache \<open>stack.lru\<close>, starts the request \<open>resolve(nvim, extern)\<close> of
  \<open>coq/lsp/requests/resolve.py\<close> as a task through \<open>go\<close>, and waits for it with
  \<open>asyncio.wait\<close> under the configured timeout. Neither \<open>resolve\<close> nor \<open>go\<close> (of the
  library \<open>pynvim_pp\<close>) is at hand, so the model takes what \<open>_resolve\<close> sees of them: the
  task as \<open>wait\<close> leaves it when it returns. The task is then not done (the timeout
  came first), done with a value (a completion or \<open>None\<close>), or done with an exception.
  \<open>await done.pop()\<close> gives the value of a done task, or raises its exception.

  What \<open>_resolve\<close> does beyond returning is a list of effects, in order.
\<close>

datatype 'l effect = LruGet nat | Go 'l | Wait_timeout | Cancel_pending

datatype ('c, 'f) task = NotDone | Returned "'c option" | Raised 'f

definition is_ExternLSP :: "'l Extern \<Rightarrow> bool" where
  "is_ExternLSP x = (case x of ExternLSP _ \<Rightarrow> True | _ \<Rightarrow> False)"

definition merge_edits ::
  "('l, 'e, 'x) Metric \<Rightarrow> ('l, 'e, 'x) Completion \<Rightarrow> ('l, 'e, 'x) Metric" where
  "merge_edits metric c =
     metric\<lparr>comp := (comp metric)\<lparr>secondary_edits := secondary_edits c\<rparr>\<rparr>"

definition resolve ::
  "(nat \<rightharpoonup> ('l, 'e, 'x) Completion) \<Rightarrow> (('l, 'e, 'x) Completion, 'f) task
     \<Rightarrow> ('l, 'e, 'x) Metric \<Rightarrow> 'l effect list \<times> ('f + ('l, 'e, 'x) Metric)" where
  "resolve lru t metric =
     (case extern (comp metric) of
        ExternLSP ext \<Rightarrow>
          (case lru (c_uid (comp metric)) of
             Some c \<Rightarrow> ([LruGet (c_uid (comp metric))], Inr (merge_edits metric c))
           | None \<Rightarrow>
               (case t of
                  NotDone \<Rightarrow>
                    ([LruGet (c_uid (comp metric)), Go ext, Wait_timeout, Cancel_pending],
                     Inr metric)
                | Returned None \<Rightarrow>
                    ([LruGet (c_uid (comp metric)), Go ext, Wait_timeout], Inr metric)
                | Returned (Some c) \<Rightarrow>
                    ([LruGet (c_uid (comp metric)), Go ext, Wait_timeout],
                     Inr (merge_edits metric c))
                | Raised e \<Rightarrow>
                    ([LruGet (c_uid (comp metric)), Go ext, Wait_timeout], Inl e)))
      | _ \<Rightarrow> ([], Inr metric))"

definition metric0 :: "nat Extern \<Rightarrow> (nat, nat list, unit) Metric" where
  "metric0 x = \<lparr>comp = \<lparr>c_uid = 5, extern = x, secondary_edits = [], c_rest = ()\<rparr>,
     m_rest = ()\<rparr>"

text \<open>
  C10. For a metric whose completion does not come from the language server,
  \<open>_resolve\<close> returns the metric as it is and does nothing else: no cache lookup, no
  request, no wait.
\<close>

theorem resolve_not_lsp:
  "\<not> is_ExternLSP (extern (comp metric)) \<Longrightarrow> resolve lru t metric = ([], Inr metric)"
  by (cases "extern (comp metric)") (simp_all add: resolve_def is_ExternLSP_def)

text \<open>A completion of the path source is returned untouched, also with a full cache.\<close>

theorem resolve_not_lsp_witness:
  "resolve (\<lambda>u. Some (comp (metric0 ExternNone))) (Returned (Some (comp (metric0 ExternNone)))
     :: ((nat, nat list, unit) Completion, unit) task) (metric0 (ExternPath True))
     = ([], Inr (metric0 (ExternPath True)))"
  using resolve_not_lsp [of "metric0 (ExternPath True)"
      "\<lambda>u. Some (comp (metric0 ExternNone))" "Returned (Some (comp (metric0 ExternNone)))"]
  by (simp add: is_ExternLSP_def metric0_def)

text \<open>
  C7, as the claim states it, fails where the task ends with an exception: \<open>_resolve\<close>
  has no handler, and \<open>await done.pop()\<close> raises the exception in its caller.
\<close>

theorem resolve_failure_counterexample:
  "snd (resolve Map.empty (Raised ''boom'') (metric0 (ExternLSP 1)))
     = (Inl ''boom'' :: string + (nat, nat list, unit) Metric)
   \<and> snd (resolve Map.empty (Raised ''boom'') (metric0 (ExternLSP 1)))
     \<noteq> Inr (metric0 (ExternLSP 1))"
  by (simp add: resolve_def metric0_def)

text \<open>
  C7, amended. For a completion of the language server that misses the cache,
  \<open>_resolve\<close> returns the metric as it is when the task is not done at the timeout and
  when the task is done without a completion; it returns the metric with the
  secondary edits of the reply when there is one; and an exception of the task is
  raised to the caller.
\<close>

theorem resolve_fallback:
  assumes "extern (comp metric) = ExternLSP ext"
    and "lru (c_uid (comp metric)) = None"
  shows "snd (resolve lru NotDone metric) = (Inr metric :: 'f + ('l, 'e, 'x) Metric)
     \<and> snd (resolve lru (Returned None) metric) = (Inr metric :: 'f + ('l, 'e, 'x) Metric)
     \<and> snd (resolve lru (Returned (Some c)) metric)
         = (Inr (metric\<lparr>comp := (comp metric)\<lparr>secondary_edits := secondary_edits c\<rparr>\<rparr>)
             :: 'f + ('l, 'e, 'x) Metric)
     \<and> snd (resolve lru (Raised e) metric) = (Inl e :: 'f + ('l, 'e, 'x) Metric)"
  using assms by (simp add: resolve_def merge_edits_def)

text \<open>A timeout gives the metric back; a reply with edits \<open>[3]\<close> gives them to it.\<close>

theorem resolve_fallback_witness:
  "snd (resolve Map.empty (NotDone :: ((nat, nat list, unit) Completion, string) task)
      (metric0 (ExternLSP 1))) = Inr (metric0 (ExternLSP 1))
   \<and> snd (resolve Map.empty
      (Returned (Some ((comp (metric0 ExternNone))\<lparr>secondary_edits := [3]\<rparr>))
        :: ((nat, nat list, unit) Completion, string) task) (metric0 (ExternLSP 1)))
     = Inr ((metric0 (ExternLSP 1))\<lparr>comp := (comp (metric0 (ExternLSP 1)))\<lparr>secondary_edits := [3]\<rparr>\<rparr>)"
  using resolve_fallback [of "metric0 (ExternLSP 1)" 1 Map.empty
      "(comp (metric0 ExternNone))\<lparr>secondary_edits := [3]\<rparr>" "''x''"]
  by (simp add: metric0_def)

section \<open>The serial executor (\<open>shared/executor.py\<close>)\<close>

text \<open>
  A call \<open>f(*args, **kwargs)\<close> returns a value or raises. Python separates what it
  raises: an instance of \<open>Exception\<close>, which \<open>except Exception\<close> on line 27 catches, and an
  instance of \<open>BaseException\<close> only (\<open>SystemExit\<close>, \<open>KeyboardInterrupt\<close>,
  \<open>GeneratorExit\<close>, and \<open>CancelledError\<close> since Python 3.8), which it does not.
\<close>

datatype 'e raised = Exc 'e | BaseExc 'e

datatype ('v, 'e) outcome = Returns 'v | Raises "'e raised"

text \<open>
  A \<open>concurrent.futures.Future\<close>: \<open>set_result\<close> and \<open>set_exception\<close> settle a pending
  future and raise \<open>InvalidStateError\<close> on any other; \<open>with suppress(InvalidStateError)\<close>
  leaves the future as it was then. \<open>result()\<close> blocks while the future is pending.
\<close>

datatype ('v, 'e) future = Pending | Cancelled_future | Result 'v | Failed "'e raised"

datatype InvalidStateError = InvalidStateError

definition set_result :: "('v, 'e) future \<Rightarrow> 'v \<Rightarrow> InvalidStateError + ('v, 'e) future" where
  "set_result fut v = (case fut of Pending \<Rightarrow> Inr (Result v) | _ \<Rightarrow> Inl InvalidStateError)"

definition set_exception ::
  "('v, 'e) future \<Rightarrow> 'e raised \<Rightarrow> InvalidStateError + ('v, 'e) future" where
  "set_exception fut e = (case fut of Pending \<Rightarrow> Inr (Failed e) | _ \<Rightarrow> Inl InvalidStateError)"

definition suppress :: "'s \<Rightarrow> InvalidStateError + 's \<Rightarrow> 's" where
  "suppress old r = (case r of Inl _ \<Rightarrow> old | Inr new \<Rightarrow> new)"

datatype ('v, 'e) returned = Blocked | Value 'v | Reraised "'e raised" | CancelledError

definition fut_result :: "('v, 'e) future \<Rightarrow> ('v, 'e) returned" where
  "fut_result fut =
     (case fut of Pending \<Rightarrow> Blocked | Cancelled_future \<Rightarrow> CancelledError
      | Result v \<Rightarrow> Value v | Failed e \<Rightarrow> Reraised e)"

text \<open>
  The executor: the queue \<open>_q\<close> of the closures \<open>cont\<close>, each known by the future and the
  \<open>f\<close> it captured; the futures made so far, by number; and whether the thread that
  runs \<open>_forever\<close> still lives. (\<open>_lock\<close> is never taken.)
\<close>

record ('v, 'e) Executor =
  q :: "(nat \<times> ('v, 'e) outcome) list"
  futs :: "nat \<Rightarrow> ('v, 'e) future"
  nfuts :: nat
  alive :: bool

text \<open>
  The closure \<open>cont\<close> of \<open>submit\<close>, run by the worker: the left result is an exception
  that leaves \<open>cont\<close>, and with it the loop of \<open>_forever\<close>.
\<close>

definition cont ::
  "('v, 'e) outcome \<Rightarrow> nat \<Rightarrow> (nat \<Rightarrow> ('v, 'e) future)
     \<Rightarrow> 'e raised + (nat \<Rightarrow> ('v, 'e) future)" where
  "cont f fut fs =
     (case f of
        Raises (Exc e) \<Rightarrow> Inr (fs(fut := suppress (fs fut) (set_exception (fs fut) (Exc e))))
      | Raises (BaseExc e) \<Rightarrow> Inl (BaseExc e)
      | Returns ret \<Rightarrow> Inr (fs(fut := suppress (fs fut) (set_result (fs fut) ret))))"

text \<open>Lines 22 to 34 of \<open>submit\<close>: the future is made and \<open>cont\<close> is queued.\<close>

definition submit_put :: "('v, 'e) outcome \<Rightarrow> ('v, 'e) Executor \<Rightarrow> ('v, 'e) Executor" where
  "submit_put f ex =
     ex\<lparr>q := q ex @ [(nfuts ex, f)], futs := (futs ex)(nfuts ex := Pending),
        nfuts := Suc (nfuts ex)\<rparr>"

text \<open>
  One iteration of \<open>_forever\<close>. With an empty queue \<open>_q.get()\<close> blocks: nothing happens.
  An exception that leaves \<open>cont\<close> ends the thread.
\<close>

definition work :: "('v, 'e) Executor \<Rightarrow> ('v, 'e) Executor" where
  "work ex =
     (if alive ex then
        (case q ex of
           [] \<Rightarrow> ex
         | (fut, f) # rest \<Rightarrow>
             (case cont f fut (futs ex) of
                Inr fs \<Rightarrow> ex\<lparr>q := rest, futs := fs\<rparr>
              | Inl e \<Rightarrow> ex\<lparr>q := rest, alive := False\<rparr>))
      else ex)"

text \<open>\<open>_forever\<close>, up to the moment it blocks on the empty queue or dies.\<close>

function forever :: "('v, 'e) Executor \<Rightarrow> ('v, 'e) Executor" where
  "forever ex = (if alive ex \<and> q ex \<noteq> [] then forever (work ex) else ex)"
  by pat_completeness auto
termination
  by (relation "measure (\<lambda>ex. length (q ex))")
     (auto simp: work_def split: list.splits sum.splits)

declare forever.simps [simp del]

text \<open>
  Submissions from any callers and iterations of the worker, in any order; the \<open>f\<close>s
  submitted, in order; what \<open>fut.result()\<close> gives each submitter.
\<close>

datatype ('v, 'e) call = Submit "('v, 'e) outcome" | Work

fun calls :: "('v, 'e) call list \<Rightarrow> ('v, 'e) Executor \<Rightarrow> ('v, 'e) Executor" where
  "calls [] ex = ex"
| "calls (Submit f # cs) ex = calls cs (submit_put f ex)"
| "calls (Work # cs) ex = calls cs (work ex)"

fun submitted :: "('v, 'e) call list \<Rightarrow> ('v, 'e) outcome list" where
  "submitted [] = []"
| "submitted (Submit f # cs) = f # submitted cs"
| "submitted (Work # cs) = submitted cs"

definition executor0 :: "('v, 'e) Executor" where
  "executor0 = \<lparr>q = [], futs = (\<lambda>_. Pending), nfuts = 0, alive = True\<rparr>"

fun catchable :: "('v, 'e) outcome \<Rightarrow> bool" where
  "catchable (Raises (BaseExc e)) = False"
| "catchable _ = True"

fun expected :: "('v, 'e) outcome \<Rightarrow> ('v, 'e) returned" where
  "expected (Returns v) = Value v"
| "expected (Raises e) = Reraised e"

definition results :: "('v, 'e) Executor \<Rightarrow> ('v, 'e) returned list" where
  "results ex = map (\<lambda>i. fut_result (futs ex i)) [0..<nfuts ex]"

text \<open>
  After \<open>k\<close> of the submitted \<open>fs\<close> were run: the worker lives, the others wait in the
  queue in order with pending futures, and the first \<open>k\<close> futures hold what their \<open>f\<close>
  returned or raised.
\<close>

definition served :: "nat \<Rightarrow> ('v, 'e) outcome list \<Rightarrow> ('v, 'e) Executor \<Rightarrow> bool" where
  "served k fs ex =
     (alive ex \<and> nfuts ex = length fs \<and> k \<le> length fs
      \<and> q ex = map (\<lambda>i. (i, fs ! i)) [k..<length fs]
      \<and> (\<forall>i<k. fut_result (futs ex i) = expected (fs ! i))
      \<and> (\<forall>i\<ge>k. futs ex i = Pending))"

definition three_calls :: "(nat, string) call list" where
  "three_calls =
     [Submit (Returns 1), Work, Submit (Raises (Exc ''ValueError'')), Submit (Returns 2)]"

definition exit_calls :: "(nat, string) call list" where
  "exit_calls = [Submit (Raises (BaseExc ''SystemExit'')), Submit (Returns 1)]"

lemmas exec_defs = executor0_def submit_put_def work_def cont_def set_result_def
  set_exception_def suppress_def results_def fut_result_def

lemma served0: "served 0 [] executor0"
  by (simp add: served_def executor0_def)

lemma served_submit: "served k fs ex \<Longrightarrow> served k (fs @ [f]) (submit_put f ex)"
  by (auto simp: served_def submit_put_def nth_append)

lemma served_work:
  assumes "served k fs ex" and "list_all catchable fs"
  shows "served (min (Suc k) (length fs)) fs (work ex)"
proof (cases "k < length fs")
  case False
  with assms(1) show ?thesis
    by (simp add: served_def work_def min_def)
next
  case True
  then have qq: "q ex = (k, fs ! k) # map (\<lambda>i. (i, fs ! i)) [Suc k..<length fs]"
    using assms(1) by (simp add: served_def upt_conv_Cons)
  have c: "catchable (fs ! k)"
    using assms(2) True by (simp add: list_all_length)
  have p: "futs ex k = Pending" and a: "alive ex"
    using assms(1) by (simp_all add: served_def)
  have "cont (fs ! k) k (futs ex)
          = Inr ((futs ex)(k := (case fs ! k of Returns v \<Rightarrow> Result v | Raises e \<Rightarrow> Failed e)))"
    using c p
    by (cases "fs ! k" rule: catchable.cases)
       (simp_all add: cont_def set_result_def set_exception_def suppress_def)
  then have w: "work ex = ex\<lparr>q := map (\<lambda>i. (i, fs ! i)) [Suc k..<length fs],
      futs := (futs ex)(k := (case fs ! k of Returns v \<Rightarrow> Result v | Raises e \<Rightarrow> Failed e))\<rparr>"
    using a qq by (simp add: work_def)
  have e: "fut_result (case fs ! k of Returns v \<Rightarrow> Result v | Raises e \<Rightarrow> Failed e)
             = expected (fs ! k)"
    by (cases "fs ! k") (simp_all add: fut_result_def)
  show ?thesis
    using assms(1) True e unfolding w served_def
    by (auto simp: min_def less_Suc_eq)
qed

lemma served_forever:
  "served k fs ex \<Longrightarrow> list_all catchable fs \<Longrightarrow> served (length fs) fs (forever ex)"
proof (induction "length fs - k" arbitrary: k ex)
  case 0
  then have "k = length fs" "q ex = []"
    by (simp_all add: served_def)
  with 0 show ?case by (simp add: served_def forever.simps [of ex])
next
  case (Suc n)
  then have lt: "k < length fs" by simp
  have ne: "q ex \<noteq> []" "alive ex"
    using Suc.prems(1) lt by (auto simp: served_def)
  have "served (Suc k) fs (work ex)"
    using served_work [OF Suc.prems] lt by (simp add: min_def)
  moreover have "n = length fs - Suc k"
    using Suc.hyps(2) by simp
  ultimately have "served (length fs) fs (forever (work ex))"
    using Suc.hyps(1) Suc.prems(2) by blast
  then show ?case
    using ne by (simp add: forever.simps [of ex])
qed

lemma served_calls:
  "served k fs ex \<Longrightarrow> list_all catchable (fs @ submitted cs) \<Longrightarrow>
     \<exists>k'. served k' (fs @ submitted cs) (calls cs ex)"
proof (induction cs arbitrary: k fs ex)
  case Nil
  then show ?case by auto
next
  case (Cons c cs)
  show ?case
  proof (cases c)
    case (Submit f)
    have "served k (fs @ [f]) (submit_put f ex)"
      using Cons.prems(1) by (rule served_submit)
    from Cons.IH [OF this] Cons.prems(2) Submit show ?thesis by simp
  next
    case Work
    have "list_all catchable fs"
      using Cons.prems(2) by simp
    from served_work [OF Cons.prems(1) this] Cons.IH Cons.prems(2) Work show ?thesis
      by simp
  qed
qed

lemma served_results: "served (length fs) fs ex \<Longrightarrow> results ex = map expected fs"
  by (auto simp: served_def results_def intro!: nth_equalityI)

lemma cont_settled:
  "catchable f \<Longrightarrow> fut \<noteq> Pending \<Longrightarrow> cont f i (fs(i := fut)) = Inr (fs(i := fut))"
  by (cases f rule: catchable.cases; cases fut)
     (simp_all add: cont_def set_result_def set_exception_def suppress_def)

text \<open>
  C8, as the claim states it, fails for an \<open>f\<close> that raises outside \<open>Exception\<close>:
  \<open>except Exception\<close> lets it pass, the loop of \<open>_forever\<close> ends, the submitter of that
  \<open>f\<close> blocks for ever instead of seeing the exception, and the next submission is
  never run.
\<close>

theorem worker_dies_counterexample:
  "alive (forever (calls exit_calls executor0)) = False
   \<and> results (forever (calls exit_calls executor0)) = [Blocked, Blocked]"
  by code_simp

text \<open>
  C8, amended. When every \<open>f\<close> submitted returns or raises an instance of \<open>Exception\<close>,
  then, in whatever order submissions and worker iterations happen, each \<open>submit\<close>
  returns the value of its \<open>f\<close> or raises its exception in the caller, the worker loop
  is still alive with nothing left in the queue, and a \<open>cont\<close> that finds its future
  settled already leaves every future as it is, without an error.
\<close>

theorem submit_returns_or_reraises:
  assumes "list_all catchable (submitted cs)"
    and "catchable f" and "fut \<noteq> Pending"
  shows "results (forever (calls cs executor0)) = map expected (submitted cs)
     \<and> alive (forever (calls cs executor0))
     \<and> q (forever (calls cs executor0)) = []
     \<and> cont f i (fs(i := fut)) = Inr (fs(i := fut))"
proof -
  obtain k where "served k (submitted cs) (calls cs executor0)"
    using served_calls [OF served0, of cs] assms(1) by auto
  from served_forever [OF this assms(1)] have s: "served (length (submitted cs)) (submitted cs)
      (forever (calls cs executor0))" .
  then show ?thesis
    using served_results [OF s] cont_settled [OF assms(2,3), of i fs] by (simp add: served_def)
qed

text \<open>
  Three submissions, the second raising \<open>ValueError\<close>: each gets its own outcome and the
  worker lives.
\<close>

theorem submit_returns_or_reraises_witness:
  "results (forever (calls three_calls executor0))
     = [Value 1, Reraised (Exc ''ValueError''), Value 2]
   \<and> alive (forever (calls three_calls executor0))
   \<and> q (forever (calls three_calls executor0)) = []
   \<and> cont (Returns 5) 0 ((\<lambda>_. Pending)(0 := Result (1::nat)))
       = (Inr ((\<lambda>_. Pending)(0 := Result 1)) :: string raised + (nat \<Rightarrow> (nat, string) future))"
proof -
  have h: "list_all catchable (submitted three_calls)"
    by (simp add: three_calls_def)
  have r: "map expected (submitted three_calls)
             = [Value 1, Reraised (Exc ''ValueError''), Value 2]"
    by (simp add: three_calls_def)
  have c: "catchable (Returns 5 :: (nat, string) outcome)"
    by simp
  have p: "Result (1::nat) \<noteq> (Pending :: (nat, string) future)"
    by simp
  from submit_returns_or_reraises [OF h c p, of 0 "\<lambda>_. Pending"] show ?thesis
    by (simp only: r)
qed

section \<open>The task supervisor (\<open>omnifunc.py\<close>, \<open>_launch_loop\<close>)\<close>

text \<open>
  A task of the event loop running \<open>c0(s, manual)\<close>: the arguments it was created with,
  and where it stands. \<open>Task.cancel()\<close> only requests the cancellation; the task is
  cancelled when it unwinds at its next suspension point. Until then, as before the
  request, it is not done.
\<close>

datatype status = Running | Cancelling | Cancelled | Finished

record 'd Task =
  args :: 'd
  status :: status

definition is_done :: "'d Task \<Rightarrow> bool" where
  "is_done t = (status t = Cancelled \<or> status t = Finished)"

definition running :: "'d Task \<Rightarrow> bool" where
  "running t = (status t = Running \<or> status t = Cancelling)"

text \<open>
  The state that \<open>comp_func\<close>, \<open>c1\<close> and \<open>c2\<close> share: the queue \<open>_Q\<close>, the variables
  \<open>incoming\<close> and \<open>task\<close>, the flag of the \<open>Event\<close>, every task created so far (\<open>task\<close> is
  an index into them), and the place where \<open>c2\<close> is suspended: in \<open>event.wait()\<close> or in
  \<open>await cancel(task)\<close>. \<open>taken\<close> is history: what \<open>c1\<close> has taken from the queue.
\<close>

datatype c2_pc = AtWait | InCancel

record 'd Loop =
  Q :: "'d list"
  taken :: "'d list"
  incoming :: "'d option"
  event :: bool
  task :: "nat option"
  tasks :: "'d Task list"
  c2 :: c2_pc

text \<open>
  \<open>cancel\<close> is \<open>std2.asyncio.cancel\<close>, a library function: it requests the cancellation
  of the task and returns when the task is done. The request changes nothing on a task
  that is done.
\<close>

definition set_status :: "nat \<Rightarrow> status \<Rightarrow> 'd Task list \<Rightarrow> 'd Task list" where
  "set_status i st ts = ts[i := (ts ! i)\<lparr>status := st\<rparr>]"

definition request_cancel :: "nat \<Rightarrow> 'd Task list \<Rightarrow> 'd Task list" where
  "request_cancel i ts =
     (if i < length ts \<and> status (ts ! i) = Running then set_status i Cancelling ts
      else ts)"

text \<open>
  Lines 134 to 137. A tuple \<open>(s, manual)\<close> is true in Python, so \<open>if incoming\<close> asks
  whether a trigger has arrived at all.
\<close>

definition create_task :: "'d Loop \<Rightarrow> 'd Loop" where
  "create_task s =
     (case incoming s of
        None \<Rightarrow> s
      | Some d \<Rightarrow>
          s\<lparr>tasks := tasks s @ [\<lparr>args = d, status = Running\<rparr>],
            task := Some (length (tasks s))\<rparr>)"

text \<open>One iteration of \<open>c1\<close>: \<open>_Q.get\<close> blocks on the empty queue.\<close>

definition c1_step :: "'d Loop \<Rightarrow> 'd Loop" where
  "c1_step s =
     (case Q s of
        [] \<Rightarrow> s
      | d # ds \<Rightarrow> s\<lparr>Q := ds, taken := taken s @ [d], incoming := Some d, event := True\<rparr>)"

text \<open>
  \<open>c2\<close> from one suspension to the next. In \<open>event.wait()\<close> it goes on when the flag is
  set: it clears the flag and, with a task at hand, requests its cancellation and
  waits for its end; without one it creates the first task at once. In
  \<open>await cancel(task)\<close> it goes on when the task is done, and creates the next task.
\<close>

definition c2_step :: "'d Loop \<Rightarrow> 'd Loop" where
  "c2_step s =
     (case c2 s of
        AtWait \<Rightarrow>
          (if event s then
             (case task s of
                None \<Rightarrow> create_task (s\<lparr>event := False\<rparr>)
              | Some i \<Rightarrow>
                  s\<lparr>event := False, tasks := request_cancel i (tasks s), c2 := InCancel\<rparr>)
           else s)
      | InCancel \<Rightarrow>
          (case task s of
             None \<Rightarrow> s
           | Some i \<Rightarrow>
               (if i < length (tasks s) \<and> is_done (tasks s ! i)
                then create_task (s\<lparr>c2 := AtWait\<rparr>)
                else s)))"

text \<open>
  What can happen, one at a time (the scheduler is cooperative): \<open>comp_func\<close> puts a
  trigger into the queue, \<open>c1\<close> or \<open>c2\<close> runs, a task runs to its end, or a task whose
  cancellation was requested unwinds.
\<close>

datatype 'd occurrence = Put 'd | C1 | C2 | Done nat | Unwind nat

fun occur :: "'d occurrence \<Rightarrow> 'd Loop \<Rightarrow> 'd Loop" where
  "occur (Put d) s = s\<lparr>Q := Q s @ [d]\<rparr>"
| "occur C1 s = c1_step s"
| "occur C2 s = c2_step s"
| "occur (Done i) s =
     (if i < length (tasks s) \<and> running (tasks s ! i)
      then s\<lparr>tasks := set_status i Finished (tasks s)\<rparr> else s)"
| "occur (Unwind i) s =
     (if i < length (tasks s) \<and> status (tasks s ! i) = Cancelling
      then s\<lparr>tasks := set_status i Cancelled (tasks s)\<rparr> else s)"

fun occurs :: "'d occurrence list \<Rightarrow> 'd Loop \<Rightarrow> 'd Loop" where
  "occurs [] s = s"
| "occurs (e # es) s = occurs es (occur e s)"

fun puts :: "'d occurrence list \<Rightarrow> 'd list" where
  "puts [] = []"
| "puts (Put d # es) = d # puts es"
| "puts (e # es) = puts es"

definition loop0 :: "'d Loop" where
  "loop0 = \<lparr>Q = [], taken = [], incoming = None, event = False, task = None, tasks = [],
     c2 = AtWait\<rparr>"

definition quiescent :: "'d Loop \<Rightarrow> bool" where
  "quiescent s = (Q s = [] \<and> \<not> event s \<and> c2 s = AtWait)"

text \<open>
  A fair schedule when no further trigger arrives: \<open>c1\<close> empties the queue; then \<open>c2\<close>
  runs whenever it can, and a task whose end \<open>c2\<close> waits for runs to its end. \<open>rest\<close> runs
  this schedule for as many steps as it may need; \<open>rank\<close> counts the steps still to
  come once the queue is empty.
\<close>

definition next_occurrence :: "'d Loop \<Rightarrow> 'd occurrence option" where
  "next_occurrence s =
     (if Q s \<noteq> [] then Some C1
      else
        (case c2 s of
           InCancel \<Rightarrow>
             (if tasks s \<noteq> [] \<and> is_done (tasks s ! (length (tasks s) - 1)) then Some C2
              else Some (Done (length (tasks s) - 1)))
         | AtWait \<Rightarrow> (if event s then Some C2 else None)))"

fun settle :: "nat \<Rightarrow> 'd Loop \<Rightarrow> 'd Loop" where
  "settle 0 s = s"
| "settle (Suc n) s =
     (case next_occurrence s of None \<Rightarrow> s | Some e \<Rightarrow> settle n (occur e s))"

definition rest :: "'d Loop \<Rightarrow> 'd Loop" where
  "rest s = settle (length (Q s) + 5) s"

definition rank :: "'d Loop \<Rightarrow> nat" where
  "rank s =
     (case c2 s of
        AtWait \<Rightarrow> (if event s then 3 else 0)
      | InCancel \<Rightarrow>
          (if event s then 4 else 1)
          + (if tasks s \<noteq> [] \<and> is_done (tasks s ! (length (tasks s) - 1)) then 0 else 1))"

text \<open>
  What holds in every state: \<open>task\<close> is the last task created; every task but the last
  is done; \<open>incoming\<close> is the last trigger taken; the flag is set only after a trigger;
  \<open>c2\<close> waits for the end of a task only when there is one; while \<open>c2\<close> waits for the
  event nobody has asked the last task to cancel, and with the flag clear that task
  was created with the last trigger taken.
\<close>

definition sound :: "'d Loop \<Rightarrow> bool" where
  "sound s =
     (task s = (if tasks s = [] then None else Some (length (tasks s) - 1))
      \<and> (\<forall>j. Suc j < length (tasks s) \<longrightarrow> is_done (tasks s ! j))
      \<and> incoming s = (if taken s = [] then None else Some (last (taken s)))
      \<and> (event s \<longrightarrow> taken s \<noteq> [])
      \<and> (c2 s = InCancel \<longrightarrow> tasks s \<noteq> [] \<and> taken s \<noteq> [])
      \<and> (c2 s = AtWait \<longrightarrow> tasks s \<noteq> [] \<longrightarrow>
            status (tasks s ! (length (tasks s) - 1)) = Running
            \<or> status (tasks s ! (length (tasks s) - 1)) = Finished)
      \<and> (c2 s = AtWait \<longrightarrow> \<not> event s \<longrightarrow> taken s \<noteq> [] \<longrightarrow>
            tasks s \<noteq> [] \<and> args (tasks s ! (length (tasks s) - 1)) = last (taken s)))"

definition burst_start :: "nat occurrence list" where
  "burst_start =
     [Put 1, C1, C2, Put 2, Put 3, C1, C2, C1, Unwind 0, C2, C2, Unwind 1]"

definition burst :: "nat occurrence list" where
  "burst = burst_start @ [C2]"

lemmas loop_defs = loop0_def c1_step_def c2_step_def create_task_def request_cancel_def
  set_status_def quiescent_def is_done_def running_def burst_def burst_start_def

lemma sound0: "sound loop0"
  by (simp add: sound_def loop0_def)

lemma length_set_status [simp]: "length (set_status i st ts) = length ts"
  by (simp add: set_status_def)

lemma set_status_Nil [simp]: "(set_status i st ts = []) = (ts = [])"
  by (simp add: set_status_def)

lemma is_done_status [simp]: "is_done (t\<lparr>status := st\<rparr>) = (st = Cancelled \<or> st = Finished)"
  by (simp add: is_done_def)

lemma nth_set_status [simp]:
  "j < length ts \<Longrightarrow>
     set_status i st ts ! j = (if j = i then (ts ! i)\<lparr>status := st\<rparr> else ts ! j)"
  by (simp add: set_status_def)

lemma length_request_cancel [simp]: "length (request_cancel i ts) = length ts"
  by (simp add: request_cancel_def)

lemma request_cancel_Nil [simp]: "(request_cancel i ts = []) = (ts = [])"
  by (simp add: request_cancel_def)

lemma done_request_cancel:
  "j < length ts \<Longrightarrow> is_done (ts ! j) \<Longrightarrow> is_done (request_cancel i ts ! j)"
  by (auto simp: request_cancel_def is_done_def)

lemma sound_Put: "sound s \<Longrightarrow> sound (occur (Put d) s)"
  by (simp add: sound_def)

lemma sound_C1: "sound s \<Longrightarrow> sound (occur C1 s)"
proof (cases "Q s")
  case Nil
  assume "sound s"
  with Nil show ?thesis by (simp add: c1_step_def)
next
  case (Cons d ds)
  assume "sound s"
  with Cons show ?thesis by (simp add: c1_step_def sound_def)
qed

lemma sound_status:
  assumes "sound s" and "i < length (tasks s)" and "st = Finished \<or> st = Cancelled"
    and "st = Cancelled \<longrightarrow> status (tasks s ! i) = Cancelling"
  shows "sound (s\<lparr>tasks := set_status i st (tasks s)\<rparr>)"
proof (cases "c2 s")
  case AtWait
  with assms show ?thesis
    unfolding sound_def by (cases "i = length (tasks s) - 1") auto
next
  case InCancel
  with assms show ?thesis
    unfolding sound_def by auto
qed

lemma sound_Done: "sound s \<Longrightarrow> sound (occur (Done i) s)"
  by (simp add: sound_status running_def)

lemma sound_Unwind: "sound s \<Longrightarrow> sound (occur (Unwind i) s)"
  by (simp add: sound_status)

lemma sound_create:
  assumes "sound s" and "taken s \<noteq> []"
    and "tasks s \<noteq> [] \<longrightarrow> is_done (tasks s ! (length (tasks s) - 1))"
  shows "sound (create_task (s\<lparr>event := False, c2 := AtWait\<rparr>))"
proof -
  have inc: "incoming s = Some (last (taken s))"
    using assms(1,2) by (simp add: sound_def)
  have old: "\<forall>j. j < length (tasks s) \<longrightarrow> is_done (tasks s ! j)"
  proof (intro allI impI)
    fix j assume j: "j < length (tasks s)"
    show "is_done (tasks s ! j)"
    proof (cases "Suc j < length (tasks s)")
      case True
      with assms(1) show ?thesis by (simp add: sound_def)
    next
      case False
      with j have "j = length (tasks s) - 1" by simp
      with assms(3) j show ?thesis by auto
    qed
  qed
  show ?thesis
    using assms(1,2) old
    by (simp add: create_task_def inc sound_def nth_append)
qed

lemma sound_C2: "sound s \<Longrightarrow> sound (occur C2 s)"
proof -
  assume s: "sound s"
  show ?thesis
  proof (cases "c2 s")
    case AtWait
    show ?thesis
    proof (cases "event s")
      case False
      with AtWait s show ?thesis by (simp add: c2_step_def)
    next
      case True
      then have tk: "taken s \<noteq> []"
        using s by (simp add: sound_def)
      show ?thesis
      proof (cases "tasks s = []")
        case True
        then have "task s = None"
          using s by (simp add: sound_def)
        moreover have "sound (create_task (s\<lparr>event := False, c2 := AtWait\<rparr>))"
          using s tk True by (intro sound_create) simp_all
        moreover have "s\<lparr>event := False, c2 := AtWait\<rparr> = s\<lparr>event := False\<rparr>"
          using AtWait by simp
        ultimately show ?thesis
          using AtWait \<open>event s\<close> by (simp add: c2_step_def)
      next
        case False
        then have t: "task s = Some (length (tasks s) - 1)"
          using s by (simp add: sound_def)
        have "sound (s\<lparr>event := False,
            tasks := request_cancel (length (tasks s) - 1) (tasks s), c2 := InCancel\<rparr>)"
          using s tk False by (simp add: sound_def done_request_cancel)
        then show ?thesis
          using AtWait \<open>event s\<close> t by (simp add: c2_step_def)
      qed
    qed
  next
    case InCancel
    then have ne: "tasks s \<noteq> []" and tk: "taken s \<noteq> []"
      using s by (simp_all add: sound_def)
    then have t: "task s = Some (length (tasks s) - 1)"
      using s by (simp add: sound_def)
    show ?thesis
    proof (cases "is_done (tasks s ! (length (tasks s) - 1))")
      case False
      with InCancel t s show ?thesis by (simp add: c2_step_def)
    next
      case True
      have ev: "\<not> event s \<Longrightarrow> s\<lparr>event := False, c2 := AtWait\<rparr> = s\<lparr>c2 := AtWait\<rparr>"
        by simp
      have "sound (create_task (s\<lparr>c2 := AtWait\<rparr>))"
      proof (cases "event s")
        case False
        with sound_create [OF s tk] True ev show ?thesis by simp
      next
        case True
        have inc: "incoming s = Some (last (taken s))"
          using s tk by (simp add: sound_def)
        have old: "\<And>j. j < length (tasks s) \<Longrightarrow> is_done (tasks s ! j)"
        proof -
          fix j assume j: "j < length (tasks s)"
          show "is_done (tasks s ! j)"
          proof (cases "Suc j < length (tasks s)")
            case True
            with s show ?thesis by (simp add: sound_def)
          next
            case False
            with j have "j = length (tasks s) - 1" by simp
            with \<open>is_done (tasks s ! (length (tasks s) - 1))\<close> show ?thesis by simp
          qed
        qed
        show ?thesis
          using s tk True old
          by (simp add: create_task_def inc sound_def nth_append)
      qed
      then show ?thesis
        using InCancel t True ne by (simp add: c2_step_def)
    qed
  qed
qed

lemma sound_occur: "sound s \<Longrightarrow> sound (occur e s)"
  by (cases e) (simp_all only: sound_Put sound_C1 sound_C2 sound_Done sound_Unwind)

lemma sound_occurs: "sound s \<Longrightarrow> sound (occurs es s)"
  by (induction es arbitrary: s) (simp_all add: sound_occur)

lemma history_occur: "taken (occur e s) @ Q (occur e s) = taken s @ Q s @ puts [e]"
  by (cases e) (simp_all add: c1_step_def c2_step_def create_task_def
      split: list.splits c2_pc.splits option.splits)

lemma puts_Cons: "puts (e # es) = puts [e] @ puts es"
  by (cases e) simp_all

lemma history: "taken (occurs es s) @ Q (occurs es s) = taken s @ Q s @ puts es"
proof (induction es arbitrary: s)
  case Nil
  then show ?case by simp
next
  case (Cons e es)
  show ?case
    using Cons.IH [of "occur e s"] history_occur [of e s] puts_Cons [of e es] by simp
qed

lemma running_not_done: "running t = (\<not> is_done t)"
  by (cases "status t") (simp_all add: running_def is_done_def)

lemma one_running:
  "(\<And>j. Suc j < length ts \<Longrightarrow> is_done (ts ! j)) \<Longrightarrow> length (filter running ts) \<le> 1"
proof (cases ts rule: rev_cases)
  case Nil
  then show ?thesis by simp
next
  case (snoc xs x)
  assume d: "\<And>j. Suc j < length ts \<Longrightarrow> is_done (ts ! j)"
  have "\<forall>t \<in> set xs. \<not> running t"
  proof
    fix t assume "t \<in> set xs"
    then obtain j where j: "j < length xs" "xs ! j = t"
      by (auto simp: in_set_conv_nth)
    then have "is_done (ts ! j)"
      using d [of j] snoc by simp
    then show "\<not> running t"
      using j snoc by (simp add: nth_append running_not_done)
  qed
  then have "filter running xs = []"
    by (simp add: filter_empty_conv)
  then show ?thesis
    using snoc by simp
qed

lemma butlast_done:
  "(\<And>j. Suc j < length ts \<Longrightarrow> is_done (ts ! j)) \<Longrightarrow> list_all is_done (butlast ts)"
  by (simp add: list_all_length nth_butlast)

lemma created_append:
  "length (tasks s) < length (tasks (occur e s)) \<Longrightarrow>
     \<exists>t. tasks (occur e s) = tasks s @ [t]"
  by (cases e) (auto simp: c1_step_def c2_step_def create_task_def
      split: list.splits c2_pc.splits option.splits if_splits)

lemma occurs_snoc: "occurs (es @ [e]) s = occur e (occurs es s)"
  by (induction es arbitrary: s) simp_all

lemma settle_quiescent: "quiescent s \<Longrightarrow> settle n s = s"
  by (cases n) (simp_all add: quiescent_def next_occurrence_def)

lemma next_no_put: "next_occurrence s = Some e \<Longrightarrow> puts [e] = []"
  by (auto simp: next_occurrence_def split: if_splits c2_pc.splits)

lemma sound_settle: "sound s \<Longrightarrow> sound (settle n s)"
  by (induction n arbitrary: s) (auto simp: sound_occur split: option.splits)

lemma history_settle: "taken (settle n s) @ Q (settle n s) = taken s @ Q s"
proof (induction n arbitrary: s)
  case 0
  then show ?case by simp
next
  case (Suc n)
  show ?case
  proof (cases "next_occurrence s")
    case None
    then show ?thesis by simp
  next
    case (Some e)
    then show ?thesis
      using Suc [of "occur e s"] history_occur [of e s] next_no_put [OF Some] by simp
  qed
qed

lemma settle_Suc: "next_occurrence s = Some e \<Longrightarrow> settle (Suc n) s = settle n (occur e s)"
  by simp

lemma drain:
  "sound s \<Longrightarrow> \<exists>s'. sound s' \<and> Q s' = [] \<and> settle (length (Q s) + n) s = settle n s'"
proof (induction "Q s" arbitrary: s)
  case Nil
  then show ?case by (metis add_0 list.size(3))
next
  case (Cons d ds)
  have nx: "next_occurrence s = Some C1"
    using Cons.hyps(2) [symmetric] by (simp add: next_occurrence_def)
  have q: "ds = Q (occur C1 s)"
    using Cons.hyps(2) [symmetric] by (simp add: c1_step_def)
  have "sound (occur C1 s)"
    using Cons.prems by (rule sound_occur)
  from Cons.hyps(1) [OF q this] obtain s' where
    "sound s'" "Q s' = []" "settle (length ds + n) (occur C1 s) = settle n s'"
    using q by auto
  then show ?case
    using nx Cons.hyps(2) [symmetric] by auto
qed

lemma create_task_fields [simp]:
  "Q (create_task s) = Q s" "event (create_task s) = event s" "c2 (create_task s) = c2 s"
  by (simp_all add: create_task_def split: option.splits)

lemma rank_step:
  assumes "sound s" and "Q s = []" and "rank s = Suc r"
  shows "\<exists>e. next_occurrence s = Some e \<and> Q (occur e s) = [] \<and> rank (occur e s) \<le> r"
proof (cases "c2 s")
  case AtWait
  then have ev: "event s" and r: "r = 2"
    using assms(3) by (auto simp: rank_def split: if_splits)
  have nx: "next_occurrence s = Some C2"
    using assms(2) AtWait ev by (simp add: next_occurrence_def)
  have "Q (c2_step s) = [] \<and> \<not> event (c2_step s)"
    using assms(2) AtWait ev by (simp add: c2_step_def split: option.splits)
  then have "Q (c2_step s) = [] \<and> rank (c2_step s) \<le> 2"
    by (auto simp: rank_def split: c2_pc.splits)
  then show ?thesis
    using nx r by simp
next
  case InCancel
  then have ne: "tasks s \<noteq> []" and t: "task s = Some (length (tasks s) - 1)"
    using assms(1) by (simp_all add: sound_def)
  show ?thesis
  proof (cases "is_done (tasks s ! (length (tasks s) - 1))")
    case True
    have nx: "next_occurrence s = Some C2"
      using assms(2) InCancel ne True by (simp add: next_occurrence_def)
    have st: "c2_step s = create_task (s\<lparr>c2 := AtWait\<rparr>)"
      using InCancel t ne True by (simp add: c2_step_def)
    have "rank (c2_step s) = (if event s then 3 else 0)" "Q (c2_step s) = []"
      using assms(2) by (simp_all add: st rank_def)
    moreover have "rank s = (if event s then 4 else 1)"
      using InCancel ne True by (simp add: rank_def)
    ultimately show ?thesis
      using nx assms(3) by (auto split: if_splits)
  next
    case False
    have nx: "next_occurrence s = Some (Done (length (tasks s) - 1))"
      using assms(2) InCancel False by (simp add: next_occurrence_def)
    have run: "running (tasks s ! (length (tasks s) - 1))"
      using False by (simp add: running_not_done)
    have st: "occur (Done (length (tasks s) - 1)) s
        = s\<lparr>tasks := set_status (length (tasks s) - 1) Finished (tasks s)\<rparr>"
      using ne run by simp
    have "rank (occur (Done (length (tasks s) - 1)) s) = (if event s then 4 else 1)"
      using InCancel ne unfolding st by (simp add: rank_def)
    moreover have "rank s = (if event s then 5 else 2)"
      using InCancel False by (simp add: rank_def)
    moreover have "Q (occur (Done (length (tasks s) - 1)) s) = []"
      using assms(2) unfolding st by simp
    ultimately show ?thesis
      using nx assms(3) by (auto split: if_splits)
  qed
qed

lemma rank_0: "Q s = [] \<Longrightarrow> rank s = 0 \<Longrightarrow> quiescent s"
  by (auto simp: rank_def quiescent_def split: c2_pc.splits if_splits)

lemma rest_reached: "sound s \<Longrightarrow> Q s = [] \<Longrightarrow> rank s \<le> n \<Longrightarrow> quiescent (settle n s)"
proof (induction n arbitrary: s)
  case 0
  then show ?case by (simp add: rank_0)
next
  case (Suc n)
  show ?case
  proof (cases "rank s")
    case 0
    with Suc.prems(2) have "quiescent s" by (simp add: rank_0)
    then show ?thesis by (simp only: settle_quiescent)
  next
    case (Suc r)
    from rank_step [OF Suc.prems(1,2) Suc] obtain e where
      e: "next_occurrence s = Some e" "Q (occur e s) = []" "rank (occur e s) \<le> r"
      by blast
    have "rank (occur e s) \<le> n"
      using e(3) Suc \<open>rank s \<le> Suc n\<close> by simp
    from Suc.IH [OF sound_occur [OF Suc.prems(1)] e(2) this] show ?thesis
      using e(1) by simp
  qed
qed

lemma rank_le: "rank s \<le> 5"
  by (simp add: rank_def split: c2_pc.splits)

lemma comes_to_rest: "sound s \<Longrightarrow> quiescent (settle (length (Q s) + 5) s)"
proof -
  assume "sound s"
  from drain [OF this, of 5] obtain s' where
    s': "sound s'" "Q s' = []" "settle (length (Q s) + 5) s = settle 5 s'"
    by blast
  show ?thesis
    using rest_reached [OF s'(1,2) rank_le] s'(3) by simp
qed

lemma at_rest:
  assumes "sound s" and "quiescent s" and "taken s \<noteq> []"
  shows "tasks s \<noteq> [] \<and> args (last (tasks s)) = last (taken s)
     \<and> (status (last (tasks s)) = Running \<or> status (last (tasks s)) = Finished)
     \<and> list_all is_done (butlast (tasks s))"
proof -
  have ne: "tasks s \<noteq> []"
    and a: "args (tasks s ! (length (tasks s) - 1)) = last (taken s)"
    using assms by (simp_all add: sound_def quiescent_def)
  have st: "status (tasks s ! (length (tasks s) - 1)) = Running
      \<or> status (tasks s ! (length (tasks s) - 1)) = Finished"
    using assms ne by (simp add: sound_def quiescent_def)
  have "\<And>j. Suc j < length (tasks s) \<Longrightarrow> is_done (tasks s ! j)"
    using assms(1) by (simp add: sound_def)
  then have "list_all is_done (butlast (tasks s))"
    by (rule butlast_done)
  then show ?thesis
    using ne a st by (simp add: last_conv_nth)
qed

text \<open>
  C1. Whatever triggers arrive and however the tasks are scheduled: at most one task
  \<open>c0\<close> is running at any moment; when a task is created, every task created before it
  is done, cancelled or finished. When no further trigger arrives the supervisor comes
  to rest (the queue empty, the event clear, \<open>c2\<close> waiting for the event); and at rest,
  however it was reached, the last task created, the one task that nobody asked to
  cancel, runs or ran with the state and the manual flag of the last trigger, and all
  the others are done.
\<close>

theorem single_flight:
  "length (filter running (tasks (occurs es loop0))) \<le> 1
   \<and> (length (tasks (occurs es loop0)) < length (tasks (occurs (es @ [e]) loop0))
        \<longrightarrow> list_all is_done (tasks (occurs es loop0)))
   \<and> quiescent (rest (occurs es loop0))
   \<and> length (filter running (tasks (rest (occurs es loop0)))) \<le> 1
   \<and> (puts es \<noteq> [] \<longrightarrow>
        tasks (rest (occurs es loop0)) \<noteq> []
        \<and> args (last (tasks (rest (occurs es loop0)))) = last (puts es)
        \<and> (status (last (tasks (rest (occurs es loop0)))) = Running
            \<or> status (last (tasks (rest (occurs es loop0)))) = Finished)
        \<and> list_all is_done (butlast (tasks (rest (occurs es loop0)))))
   \<and> (quiescent (occurs es loop0) \<and> puts es \<noteq> [] \<longrightarrow>
        tasks (occurs es loop0) \<noteq> []
        \<and> args (last (tasks (occurs es loop0))) = last (puts es)
        \<and> (status (last (tasks (occurs es loop0))) = Running
            \<or> status (last (tasks (occurs es loop0))) = Finished)
        \<and> list_all is_done (butlast (tasks (occurs es loop0))))"
proof -
  let ?s = "occurs es (loop0 :: 'a Loop)"
  let ?r = "rest ?s"
  have s: "sound ?s"
    by (intro sound_occurs sound0)
  have r: "sound ?r"
    unfolding rest_def using s by (rule sound_settle)
  have d: "\<And>j. Suc j < length (tasks ?s) \<Longrightarrow> is_done (tasks ?s ! j)"
    using s by (simp add: sound_def)
  have dr: "\<And>j. Suc j < length (tasks ?r) \<Longrightarrow> is_done (tasks ?r ! j)"
    using r by (simp add: sound_def)
  have h: "taken ?s @ Q ?s = puts es"
    using history [of es loop0] by (simp add: loop0_def)
  have 1: "length (filter running (tasks ?s)) \<le> 1"
    using d by (rule one_running)
  have 2: "list_all is_done (tasks ?s)"
    if grow: "length (tasks ?s) < length (tasks (occurs (es @ [e]) loop0))"
  proof -
    from grow obtain t where t: "tasks (occur e ?s) = tasks ?s @ [t]"
      using created_append [of ?s e] by (auto simp: occurs_snoc)
    have "sound (occur e ?s)"
      using s by (rule sound_occur)
    then have "\<And>j. Suc j < length (tasks (occur e ?s)) \<Longrightarrow> is_done (tasks (occur e ?s) ! j)"
      by (simp add: sound_def)
    then have "\<And>j. j < length (tasks ?s) \<Longrightarrow> is_done (tasks ?s ! j)"
      using t by (metis Suc_less_eq length_append_singleton nth_append)
    then show ?thesis
      by (simp add: list_all_length)
  qed
  have 3: "quiescent ?r"
    unfolding rest_def using s by (rule comes_to_rest)
  have 4: "length (filter running (tasks ?r)) \<le> 1"
    using dr by (rule one_running)
  have "taken ?r @ Q ?r = puts es"
    unfolding rest_def using h by (simp add: history_settle)
  then have tr: "taken ?r = puts es"
    using 3 by (simp add: quiescent_def)
  have 5: "tasks ?r \<noteq> [] \<and> args (last (tasks ?r)) = last (puts es)
      \<and> (status (last (tasks ?r)) = Running \<or> status (last (tasks ?r)) = Finished)
      \<and> list_all is_done (butlast (tasks ?r))"
    if p: "puts es \<noteq> []"
    using at_rest [OF r 3] p tr by simp
  have 6: "tasks ?s \<noteq> [] \<and> args (last (tasks ?s)) = last (puts es)
      \<and> (status (last (tasks ?s)) = Running \<or> status (last (tasks ?s)) = Finished)
      \<and> list_all is_done (butlast (tasks ?s))"
    if q: "quiescent ?s" and p: "puts es \<noteq> []"
  proof -
    have "taken ?s = puts es"
      using h q by (simp add: quiescent_def)
    then show ?thesis
      using at_rest [OF s q] p by simp
  qed
  from 1 2 3 4 5 6 show ?thesis by blast
qed

text \<open>
  Three triggers in a burst: a task is created with the first and cancelled, none is
  ever created with the second, the task left running has the third. Two triggers
  before the supervisor has run at all: the one task created has the second.
\<close>

theorem single_flight_witness:
  "quiescent (occurs burst loop0)
   \<and> map args (tasks (occurs burst loop0)) = [1, 3, 3]
   \<and> map status (tasks (occurs burst loop0)) = [Cancelled, Cancelled, Running]
   \<and> list_all is_done (tasks (occurs burst_start loop0))
   \<and> map args (tasks (rest (occurs [Put 1, Put 2] loop0))) = [2 :: nat]"
  using single_flight [of burst C2] single_flight [of burst_start C2]
    single_flight [of "[Put 1, Put (2 :: nat)]" C2]
  by (simp add: loop_defs rest_def next_occurrence_def eval_nat_numeral)

end
